theory Spec2Isabelle
  imports Main "HOL-Library.Sublist" "HOL-Library.AList" "HOL-Library.Multiset"
begin

section \<open>ELD Library API (scripts/server.py): data model\<close>

text \<open>
  The server keeps two pieces of state: the directory tree below the machine's root
  and the dictionary \<^verbatim>\<open>TOKENS\<close>. Both are passed explicitly. The model fixes the POSIX
  flavour of \<^verbatim>\<open>pathlib\<close> (the separator is the slash, a backslash is an ordinary
  character of a file name), a tree without symbolic links, and strings as byte
  lists without the NUL byte (a password is the list of its UTF-8 bytes, so
  \<^verbatim>\<open>encode("utf-8")\<close> is the identity). A directory is the list of its entries in
  listing order; the names of a listing are taken to be distinct, and where they are
  not the first entry of a name is the one a path reaches. \<^verbatim>\<open>PROJECTS_DIR\<close> is a parameter: the components of the resolved absolute
  directory, written \<open>pd\<close>. \<^verbatim>\<open>bcrypt.checkpw\<close> is a parameter as well: \<open>None\<close> stands
  for the exception it raises on a malformed hash.
\<close>

type_synonym bytes = string

datatype node = File bytes | Dir "(string \<times> node) list"

datatype error = HTTPException nat string | Uncaught string

fun status_code :: "error \<Rightarrow> nat" where
  "status_code (HTTPException n d) = n"
| "status_code (Uncaught e) = 500"

record LoginRequest =
  project :: string
  password :: string

type_synonym tokens = "(string \<times> string) list"

subsection \<open>The directory tree\<close>

text \<open>Following a path of plain names from a node.\<close>

fun lookup :: "node \<Rightarrow> string list \<Rightarrow> node option" where
  "lookup n [] = Some n"
| "lookup (File b) (c # cs) = None"
| "lookup (Dir es) (c # cs) =
     (case map_of es c of None \<Rightarrow> None | Some n \<Rightarrow> lookup n cs)"

text \<open>
  What the operating system does with a path that may hold \<^verbatim>\<open>..\<close>: it walks the
  components from the root, every component before the last one has to be an
  existing directory, and \<^verbatim>\<open>..\<close> steps to the parent (the root is its own parent).
\<close>

fun canon :: "node \<Rightarrow> string list \<Rightarrow> string list \<Rightarrow> string list option" where
  "canon fs cur [] = Some cur"
| "canon fs cur (c # cs) =
     (case lookup fs cur of
        Some (Dir es) \<Rightarrow>
          (if c = ''..'' then canon fs (butlast cur) cs
           else if map_of es c = None then None
           else canon fs (cur @ [c]) cs)
      | _ \<Rightarrow> None)"

definition stat :: "node \<Rightarrow> string list \<Rightarrow> node option" where
  "stat fs p = (case canon fs [] p of None \<Rightarrow> None | Some q \<Rightarrow> lookup fs q)"

definition exists :: "node \<Rightarrow> string list \<Rightarrow> bool" where
  "exists fs p = (stat fs p \<noteq> None)"

subsection \<open>pathlib on POSIX\<close>

fun split_on :: "char \<Rightarrow> string \<Rightarrow> string list" where
  "split_on c [] = [[]]"
| "split_on c (x # xs) =
     (if x = c then [] # split_on c xs
      else (case split_on c xs of [] \<Rightarrow> [[x]] | w # ws \<Rightarrow> (x # w) # ws))"

text \<open>The parts of a path string below its root: empty components and \<^verbatim>\<open>.\<close> are dropped.\<close>

definition parts :: "string \<Rightarrow> string list" where
  "parts s = filter (\<lambda>c. c \<noteq> [] \<and> c \<noteq> ''.'') (split_on CHR ''/'' s)"

text \<open>
  \<^verbatim>\<open>base / seg\<close> for an absolute \<open>base\<close>: an absolute segment replaces the base.
\<close>

definition joinpath :: "string list \<Rightarrow> string \<Rightarrow> string list" where
  "joinpath base seg = (if prefix ''/'' seg then parts seg else base @ parts seg)"

fun join_slash :: "string list \<Rightarrow> string" where
  "join_slash [] = []"
| "join_slash [c] = c"
| "join_slash (c # d # cs) = c @ CHR ''/'' # join_slash (d # cs)"

text \<open>
  \<^verbatim>\<open>pathlib.Path(s).as_posix()\<close>. (A string that starts with exactly two slashes keeps
  both; the only caller strips every leading slash, so one is written here.)
\<close>

definition as_posix :: "string \<Rightarrow> string" where
  "as_posix s =
     (if prefix ''/'' s then CHR ''/'' # join_slash (parts s)
      else if parts s = [] then ''.''
      else join_slash (parts s))"

text \<open>
  \<^verbatim>\<open>Path.resolve()\<close> of an absolute path in a tree without symbolic links: \<^verbatim>\<open>..\<close>
  removes the component before it, whether that component exists or not, and the
  root is its own parent.
\<close>

definition resolve :: "string list \<Rightarrow> string list" where
  "resolve p = foldl (\<lambda>acc c. if c = ''..'' then butlast acc else acc @ [c]) [] p"

text \<open>\<^verbatim>\<open>str\<close> of a resolved absolute path.\<close>

definition path_str :: "string list \<Rightarrow> string" where
  "path_str p = (if p = [] then ''/'' else concat (map (\<lambda>c. CHR ''/'' # c) p))"

subsection \<open>Password utilities\<close>

definition passwd_path :: "string list \<Rightarrow> string \<Rightarrow> string list" where
  "passwd_path pd proj = joinpath (joinpath pd proj) ''.passwd''"

definition has_passwd :: "string list \<Rightarrow> node \<Rightarrow> string \<Rightarrow> bool" where
  "has_passwd pd fs proj = exists fs (passwd_path pd proj)"

text \<open>\<^verbatim>\<open>bytes.strip()\<close>: ASCII white space is removed at both ends.\<close>

definition is_space :: "char \<Rightarrow> bool" where
  "is_space c = (c \<in> set [CHR 0x20, CHR 0x09, CHR 0x0A, CHR 0x0D, CHR 0x0B, CHR 0x0C])"

definition strip :: "bytes \<Rightarrow> bytes" where
  "strip b = rev (dropWhile is_space (rev (dropWhile is_space b)))"

text \<open>
  \<^verbatim>\<open>_verify_password\<close>. \<^verbatim>\<open>read_bytes\<close> stands before the \<^verbatim>\<open>try\<close>, so a \<^verbatim>\<open>.passwd\<close> that is a
  directory is an exception of the request; what \<^verbatim>\<open>checkpw\<close> raises is caught.
\<close>

definition verify_password ::
  "(bytes \<Rightarrow> bytes \<Rightarrow> bool option) \<Rightarrow> string list \<Rightarrow> node \<Rightarrow> string \<Rightarrow> string \<Rightarrow> error + bool" where
  "verify_password checkpw pd fs proj plain_password =
     (case stat fs (passwd_path pd proj) of
        None \<Rightarrow> Inr False
      | Some (Dir es) \<Rightarrow> Inl (Uncaught ''IsADirectoryError'')
      | Some (File content) \<Rightarrow>
          (let raw = strip content in
           if prefix ''$2'' raw then
             (case checkpw plain_password raw of Some r \<Rightarrow> Inr r | None \<Rightarrow> Inr False)
           else Inr (plain_password = raw)))"

definition require_bearer :: "string option \<Rightarrow> error + string" where
  "require_bearer authorization =
     (case authorization of
        None \<Rightarrow> Inl (HTTPException 401 ''Missing token'')
      | Some a \<Rightarrow>
          if a = [] \<or> \<not> prefix ''Bearer '' a then Inl (HTTPException 401 ''Missing token'')
          else Inr (drop 7 a))"

text \<open>\<^verbatim>\<open>TOKENS\<close> is a dictionary in insertion order; the first matching value wins.\<close>

fun project_from_token :: "tokens \<Rightarrow> string \<Rightarrow> error + string" where
  "project_from_token [] token = Inl (HTTPException 401 ''Invalid token'')"
| "project_from_token ((k, v) # kvs) token =
     (if v = token then Inr k else project_from_token kvs token)"

subsection \<open>Login\<close>

definition login ::
  "(bytes \<Rightarrow> bytes \<Rightarrow> bool option) \<Rightarrow> string list \<Rightarrow> node \<Rightarrow> tokens \<Rightarrow> LoginRequest
     \<Rightarrow> (error + string) \<times> tokens" where
  "login checkpw pd fs TOKENS req =
     (if \<not> exists fs (joinpath pd (project req)) then
        (Inl (HTTPException 404 ''Project not found''), TOKENS)
      else if \<not> has_passwd pd fs (project req) then
        (Inl (HTTPException 401 ''Password not set for project''), TOKENS)
      else
        (case verify_password checkpw pd fs (project req) (password req) of
           Inl e \<Rightarrow> (Inl e, TOKENS)
         | Inr False \<Rightarrow> (Inl (HTTPException 401 ''Invalid password''), TOKENS)
         | Inr True \<Rightarrow>
             (let token = ''token-'' @ project req
              in (Inr token, AList.update (project req) token TOKENS))))"

subsection \<open>Manifest\<close>

record asset =
  asset_id :: string
  asset_type :: string
  asset_version :: nat
  asset_path :: string
  asset_thumb :: "string option"
  asset_bytes_total :: nat

text \<open>
  \<^verbatim>\<open>os.walk\<close>, top down: the files of a directory in listing order, then each
  subdirectory in listing order. An entry is the directory's path below the
  top, the file's name and its content. A top that is a regular file yields nothing.
\<close>

fun walk :: "string list \<Rightarrow> node \<Rightarrow> (string list \<times> string \<times> bytes) list"
  and walk_dirs :: "string list \<Rightarrow> (string \<times> node) list \<Rightarrow> (string list \<times> string \<times> bytes) list" where
  "walk rel (File b) = []"
| "walk rel (Dir es) =
     concat (map (\<lambda>(f, n). case n of File b \<Rightarrow> [(rel, f, b)] | Dir ds \<Rightarrow> []) es)
     @ walk_dirs rel es"
| "walk_dirs rel [] = []"
| "walk_dirs rel ((d, n) # es) =
     (case n of File b \<Rightarrow> [] | Dir ds \<Rightarrow> walk (rel @ [d]) n) @ walk_dirs rel es"

fun rfind :: "char \<Rightarrow> string \<Rightarrow> nat option" where
  "rfind c [] = None"
| "rfind c (x # xs) =
     (case rfind c xs of
        Some i \<Rightarrow> Some (Suc i)
      | None \<Rightarrow> if x = c then Some 0 else None)"

text \<open>\<^verbatim>\<open>PurePath.suffix\<close> and \<^verbatim>\<open>PurePath.stem\<close> of a file name.\<close>

definition path_suffix :: "string \<Rightarrow> string" where
  "path_suffix name =
     (case rfind CHR ''.'' name of
        None \<Rightarrow> []
      | Some i \<Rightarrow> if 0 < i \<and> i + 1 < length name then drop i name else [])"

definition path_stem :: "string \<Rightarrow> string" where
  "path_stem name =
     (case rfind CHR ''.'' name of
        None \<Rightarrow> name
      | Some i \<Rightarrow> if 0 < i \<and> i + 1 < length name then take i name else name)"

text \<open>\<^verbatim>\<open>str.lower()\<close> on ASCII letters.\<close>

definition lower_char :: "char \<Rightarrow> char" where
  "lower_char c =
     (case map_of (zip ''ABCDEFGHIJKLMNOPQRSTUVWXYZ'' ''abcdefghijklmnopqrstuvwxyz'') c of
        None \<Rightarrow> c
      | Some l \<Rightarrow> l)"

definition exts :: "string list" where
  "exts = [''bgeo'', ''abc'', ''vdb'', ''cpio'', ''jpg'', ''png'']"

definition asset_of :: "string list \<Rightarrow> string \<Rightarrow> bytes \<Rightarrow> asset option" where
  "asset_of rel fname content =
     (let ext = dropWhile (\<lambda>c. c = CHR ''.'') (map lower_char (path_suffix fname)) in
      if ext \<notin> set exts then None
      else
        (let relpath = join_slash (rel @ [fname]) in
         Some \<lparr>asset_id = path_stem fname, asset_type = ext, asset_version = 1,
               asset_path = relpath,
               asset_thumb = (if ext \<in> set [''jpg'', ''png''] then Some relpath else None),
               asset_bytes_total = length content\<rparr>))"

text \<open>
  The scan of the handler: \<^verbatim>\<open>os.walk(proj_dir)\<close> swallows the error of a top that
  cannot be listed, so a missing top yields no entry.
\<close>

definition scan :: "node \<Rightarrow> string list \<Rightarrow> asset list" where
  "scan fs proj_dir =
     (case stat fs proj_dir of
        None \<Rightarrow> []
      | Some d \<Rightarrow>
          List.map_filter (\<lambda>(rel, fname, content). asset_of rel fname content) (walk [] d))"

definition manifest ::
  "string list \<Rightarrow> node \<Rightarrow> tokens \<Rightarrow> string option \<Rightarrow> error + asset list" where
  "manifest pd fs TOKENS authorization =
     (case require_bearer authorization of
        Inl e \<Rightarrow> Inl e
      | Inr token \<Rightarrow>
     (case project_from_token TOKENS token of
        Inl e \<Rightarrow> Inl e
      | Inr proj \<Rightarrow>
     (let proj_dir = joinpath pd proj in
      if \<not> exists fs proj_dir then Inl (HTTPException 404 ''Project not found'')
      else Inr (scan fs proj_dir))))"

subsection \<open>Download\<close>

text \<open>
  The handler returns a \<^verbatim>\<open>FileResponse\<close> for the resolved path; the framework sends
  the bytes afterwards. A resolved path holds no \<^verbatim>\<open>..\<close>, so the framework and the
  upload follow it by \<open>lookup\<close>.
\<close>

datatype response = FileResponse "string list"

definition download ::
  "string list \<Rightarrow> node \<Rightarrow> tokens \<Rightarrow> string option \<Rightarrow> string \<Rightarrow> error + response" where
  "download pd fs TOKENS authorization path =
     (case require_bearer authorization of
        Inl e \<Rightarrow> Inl e
      | Inr token \<Rightarrow>
     (case project_from_token TOKENS token of
        Inl e \<Rightarrow> Inl e
      | Inr proj \<Rightarrow>
     (let fpath = resolve (joinpath (joinpath pd proj) path) in
      if \<not> prefix (path_str (resolve (joinpath pd proj))) (path_str fpath) then
        Inl (HTTPException 400 ''Invalid path'')
      else if \<not> exists fs fpath then
        Inl (HTTPException 404 ''File not found'')
      else Inr (FileResponse fpath))))"

text \<open>
  What the framework does with a \<^verbatim>\<open>FileResponse\<close> (Starlette, not part of the
  repository): it sends the content of a regular file and raises \<^verbatim>\<open>RuntimeError\<close> for
  anything else, which the client sees as status 500.
\<close>

fun send_response :: "node \<Rightarrow> response \<Rightarrow> error + bytes" where
  "send_response fs (FileResponse p) =
     (case lookup fs p of
        Some (File b) \<Rightarrow> Inr b
      | Some (Dir es) \<Rightarrow> Inl (Uncaught ''RuntimeError'')
      | None \<Rightarrow> Inl (Uncaught ''RuntimeError''))"

definition download_bytes ::
  "string list \<Rightarrow> node \<Rightarrow> tokens \<Rightarrow> string option \<Rightarrow> string \<Rightarrow> error + bytes" where
  "download_bytes pd fs TOKENS authorization path =
     (case download pd fs TOKENS authorization path of
        Inl e \<Rightarrow> Inl e
      | Inr r \<Rightarrow> send_response fs r)"

subsection \<open>Upload\<close>

text \<open>
  \<^verbatim>\<open>mkdir(parents=True, exist_ok=True)\<close>: missing directories are created (a new
  entry goes to the end of its listing); a regular file on the way is an
  \<^verbatim>\<open>OSError\<close>, raised before anything is created.
\<close>

fun mkdirs :: "node \<Rightarrow> string list \<Rightarrow> node option" where
  "mkdirs (File b) p = None"
| "mkdirs (Dir es) [] = Some (Dir es)"
| "mkdirs (Dir es) (c # cs) =
     map_option (\<lambda>n. Dir (AList.update c n es))
       (mkdirs (case map_of es c of None \<Rightarrow> Dir [] | Some n \<Rightarrow> n) cs)"

text \<open>
  The content of the regular file at a path is replaced, or the file is created
  in an existing directory. \<open>None\<close>: the path names a directory, or its parent is
  not a directory.
\<close>

fun put :: "node \<Rightarrow> string list \<Rightarrow> bytes \<Rightarrow> node option" where
  "put (File old) [] b = Some (File b)"
| "put (Dir es) [] b = None"
| "put (File old) (c # cs) b = None"
| "put (Dir es) (c # cs) b =
     (case map_of es c of
        None \<Rightarrow> if cs = [] then Some (Dir (AList.update c (File b) es)) else None
      | Some n \<Rightarrow> map_option (\<lambda>n'. Dir (AList.update c n' es)) (put n cs b))"

text \<open>
  The uploaded stream is a list of reads: \<open>Data b\<close> is a chunk and \<open>Fail\<close> is a read or
  write that raises. \<^verbatim>\<open>shutil.copyfileobj\<close> writes chunk after chunk until the stream
  ends (or a read returns no bytes); the result is what has been written and whether
  the copy came to its end.
\<close>

datatype read = Data bytes | Fail

fun copyfileobj :: "read list \<Rightarrow> bytes \<Rightarrow> bytes \<times> bool" where
  "copyfileobj [] written = (written, True)"
| "copyfileobj (Fail # rs) written = (written, False)"
| "copyfileobj (Data b # rs) written =
     (if b = [] then (written, True) else copyfileobj rs (written @ b))"

definition backslash_to_slash :: "string \<Rightarrow> string" where
  "backslash_to_slash s = map (\<lambda>c. if c = CHR 0x5C then CHR ''/'' else c) s"

definition rel_of :: "string \<Rightarrow> string" where
  "rel_of path = dropWhile (\<lambda>c. c = CHR ''/'') (as_posix (backslash_to_slash path))"

text \<open>\<^verbatim>\<open>str(dest.relative_to(root))\<close>; \<^verbatim>\<open>relative_to\<close> raises unless \<open>root\<close> is a leading part of \<open>dest\<close>.\<close>

definition relative_to :: "string list \<Rightarrow> string list \<Rightarrow> string option" where
  "relative_to dest root =
     (if prefix root dest then
        Some (if length dest = length root then ''.'' else join_slash (drop (length root) dest))
      else None)"

definition upload ::
  "string list \<Rightarrow> node \<Rightarrow> tokens \<Rightarrow> string option \<Rightarrow> string \<Rightarrow> read list
     \<Rightarrow> (error + string) \<times> node" where
  "upload pd fs TOKENS authorization path file =
     (case require_bearer authorization of
        Inl e \<Rightarrow> (Inl e, fs)
      | Inr token \<Rightarrow>
     (case project_from_token TOKENS token of
        Inl e \<Rightarrow> (Inl e, fs)
      | Inr proj \<Rightarrow>
     (let rel = rel_of path in
      if sublist ''..'' rel \<or> prefix ''/'' rel then
        (Inl (HTTPException 400 ''Invalid path''), fs)
      else
        (let dest = resolve (joinpath (joinpath pd proj) rel);
             root = resolve (joinpath pd proj) in
         if \<not> prefix (path_str root) (path_str dest) then
           (Inl (HTTPException 400 ''Invalid path''), fs)
         else
           (case mkdirs fs (butlast dest) of
              None \<Rightarrow> (Inl (Uncaught ''OSError''), fs)
            | Some fs1 \<Rightarrow>
           (case put fs1 dest [] of
              None \<Rightarrow> (Inl (Uncaught ''OSError''), fs1)
            | Some fs2 \<Rightarrow>
           (case copyfileobj file [] of (written, complete) \<Rightarrow>
           (case put fs2 dest written of
              None \<Rightarrow> (Inl (Uncaught ''OSError''), fs2)
            | Some fs3 \<Rightarrow>
                if \<not> complete then (Inl (Uncaught ''OSError''), fs3)
                else
                  (case relative_to dest root of
                     None \<Rightarrow> (Inl (Uncaught ''ValueError''), fs3)
                   | Some saved \<Rightarrow> (Inr (backslash_to_slash saved), fs3))))))))))"

subsection \<open>Session registry: reachable states\<close>

text \<open>Every entry of \<^verbatim>\<open>TOKENS\<close> was written by \<open>login\<close>.\<close>

definition tokens_inv :: "tokens \<Rightarrow> bool" where
  "tokens_inv T = list_all (\<lambda>(k, v). v = ''token-'' @ k) T"

text \<open>The registry after a sequence of login requests, each against the tree of its time.\<close>

definition run_logins ::
  "(bytes \<Rightarrow> bytes \<Rightarrow> bool option) \<Rightarrow> string list \<Rightarrow> tokens \<Rightarrow> (node \<times> LoginRequest) list
     \<Rightarrow> tokens" where
  "run_logins checkpw pd T steps =
     foldl (\<lambda>T (fs, req). snd (login checkpw pd fs T req)) T steps"

subsection \<open>A concrete store\<close>

definition pd0 :: "string list" where
  "pd0 = [''srv'', ''projects'']"

definition demo_fs :: node where
  "demo_fs = Dir
     [(''srv'', Dir [(''projects'', Dir
        [(''DEMO'', Dir [(''.passwd'', File (''secret123'' @ [CHR 0x0A])),
                         (''a.bgeo'', File ''OLD''),
                         (''thumbs'', Dir [])]),
         (''DEMO2'', Dir [(''.passwd'', File ''hunter2''),
                          (''secret.vdb'', File ''TOPSECRET'')]),
         (''EMPTY'', Dir [])])]),
      (''etc'', Dir [(''passwd'', File ''root:x:0:0'')])]"

definition no_bcrypt :: "bytes \<Rightarrow> bytes \<Rightarrow> bool option" where
  "no_bcrypt pw h = None"

definition demo_tokens :: tokens where
  "demo_tokens = [(''DEMO'', ''token-DEMO'')]"

subsection \<open>Auxiliary notions of the proofs\<close>


text \<open>The records one directory entry contributes to the scan of its directory.\<close>

definition records_of :: "string list \<Rightarrow> string \<times> node \<Rightarrow> asset list" where
  "records_of rel e =
     (case snd e of
        File b \<Rightarrow> (case asset_of rel (fst e) b of None \<Rightarrow> [] | Some r \<Rightarrow> [r])
      | Dir ds \<Rightarrow> [])"

text \<open>
  A resolved path that lies in a directory beside \<open>root\<close> whose name starts with the
  name of \<open>root\<close> and goes on (as \<^verbatim>\<open>DEMO2\<close> beside \<^verbatim>\<open>DEMO\<close>).
\<close>

definition beside_root :: "string list \<Rightarrow> string list \<Rightarrow> bool" where
  "beside_root root f =
     (root \<noteq> [] \<and> length root \<le> length f
      \<and> take (length root - 1) f = butlast root
      \<and> strict_prefix (last root) (f ! (length root - 1)))"

section \<open>Login and the session registry\<close>

lemma login_cases:
  "login c pd fs T req = (r, T') \<Longrightarrow>
     (T' = T \<and> (\<exists>e. r = Inl e)) \<or>
     (r = Inr (''token-'' @ project req)
       \<and> T' = AList.update (project req) (''token-'' @ project req) T
       \<and> verify_password c pd fs (project req) (password req) = Inr True)"
  by (auto simp: login_def Let_def split: if_splits sum.splits bool.splits)

lemma tokens_inv_update: "tokens_inv T \<Longrightarrow> tokens_inv (AList.update p (''token-'' @ p) T)"
  by (induction T) (auto simp: tokens_inv_def)

lemma tokens_inv_login: "tokens_inv T \<Longrightarrow> tokens_inv (snd (login c pd fs T req))"
  using login_cases [of c pd fs T req] tokens_inv_update
  by (cases "login c pd fs T req") auto

lemma keys_login:
  assumes "p \<in> fst ` set T"
  shows "p \<in> fst ` set (snd (login c pd fs T req))"
proof (cases "login c pd fs T req")
  case (Pair r T')
  from login_cases [OF Pair]
  have "fst ` set T' = fst ` set T \<or> fst ` set T' = {project req} \<union> fst ` set T"
    by (metis AList.dom_update)
  with assms have "p \<in> fst ` set T'" by blast
  then show ?thesis by (simp add: Pair)
qed

lemma tokens_inv_run: "tokens_inv T \<Longrightarrow> tokens_inv (run_logins c pd T steps)"
  unfolding run_logins_def
  by (induction steps arbitrary: T) (auto simp: tokens_inv_login split: prod.splits)

lemma keys_run: "p \<in> fst ` set T \<Longrightarrow> p \<in> fst ` set (run_logins c pd T steps)"
  unfolding run_logins_def
proof (induction steps arbitrary: T)
  case Nil
  then show ?case by simp
next
  case (Cons s steps)
  obtain fs req where s: "s = (fs, req)" by (cases s)
  from Cons.prems have "p \<in> fst ` set (snd (login c pd fs T req))" by (rule keys_login)
  from Cons.IH [OF this] show ?case by (simp add: s)
qed

lemma project_from_token_inv:
  "tokens_inv T \<Longrightarrow> p \<in> fst ` set T \<Longrightarrow> project_from_token T (''token-'' @ p) = Inr p"
proof (induction T)
  case Nil
  then show ?case by simp
next
  case (Cons kv T)
  obtain k v where kv: "kv = (k, v)" by (cases kv)
  from Cons.prems(1) have v: "v = ''token-'' @ k" and inv: "tokens_inv T"
    by (simp_all add: tokens_inv_def kv)
  show ?case
  proof (cases "k = p")
    case True
    then show ?thesis by (simp add: kv v)
  next
    case False
    with Cons.prems(2) have "p \<in> fst ` set T" by (auto simp: kv)
    from Cons.IH [OF inv this] False show ?thesis by (simp add: kv v)
  qed
qed

subsection \<open>A path that exists has an existing parent directory\<close>

lemma lookup_append:
  "lookup n (p @ q) = (case lookup n p of None \<Rightarrow> None | Some m \<Rightarrow> lookup m q)"
  by (induction n p rule: lookup.induct) (auto split: option.splits)

lemma canon_append:
  "canon fs cur (p @ q) = (case canon fs cur p of None \<Rightarrow> None | Some r \<Rightarrow> canon fs r q)"
  by (induction p arbitrary: cur) (auto split: option.splits node.splits)

lemma stat_parent:
  assumes "stat fs (p @ [c]) \<noteq> None"
  shows "\<exists>es. stat fs p = Some (Dir es)"
proof -
  from assms obtain q where q: "canon fs [] (p @ [c]) = Some q"
    by (auto simp: stat_def split: option.splits)
  then obtain r where r: "canon fs [] p = Some r" and rc: "canon fs r [c] = Some q"
    by (auto simp: canon_append split: option.splits)
  from rc obtain es where "lookup fs r = Some (Dir es)"
    by (auto split: option.splits node.splits)
  with r show ?thesis by (simp add: stat_def)
qed

lemma canon_plain:
  "''..'' \<notin> set p \<Longrightarrow> lookup fs cur \<noteq> None \<Longrightarrow>
     canon fs cur p = (if lookup fs (cur @ p) = None then None else Some (cur @ p))"
proof (induction p arbitrary: cur)
  case Nil
  then show ?case by simp
next
  case (Cons c cs)
  from Cons.prems(2) obtain n where n: "lookup fs cur = Some n" by auto
  from Cons.prems(1) have c: "c \<noteq> ''..''" and cs: "''..'' \<notin> set cs" by auto
  show ?case
  proof (cases n)
    case (File b)
    then show ?thesis by (simp add: n lookup_append)
  next
    case (Dir es)
    show ?thesis
    proof (cases "map_of es c")
      case None
      with c show ?thesis by (simp add: n Dir lookup_append)
    next
      case (Some m)
      then have "lookup fs (cur @ [c]) \<noteq> None" by (simp add: lookup_append n Dir)
      with c Cons.IH [OF cs this] show ?thesis by (simp add: n Dir Some)
    qed
  qed
qed

lemma stat_plain: "''..'' \<notin> set p \<Longrightarrow> stat fs p = lookup fs p"
  by (simp add: stat_def canon_plain)

lemma resolve_plain: "''..'' \<notin> set (resolve p)"
proof -
  have "''..'' \<notin> set acc \<Longrightarrow>
      ''..'' \<notin> set (foldl (\<lambda>acc c. if c = ''..'' then butlast acc else acc @ [c]) acc p)" for acc
    by (induction p arbitrary: acc) (auto dest: in_set_butlastD)
  from this [of "[]"] show ?thesis by (simp add: resolve_def)
qed

text \<open>On a resolved path, \<open>exists\<close> is the plain lookup.\<close>

lemma exists_resolve: "exists fs (resolve p) \<longleftrightarrow> lookup fs (resolve p) \<noteq> None"
  by (simp add: exists_def stat_plain resolve_plain)

lemma passwd_path_snoc: "passwd_path pd proj = joinpath pd proj @ [''.passwd'']"
  by (simp add: passwd_path_def joinpath_def parts_def)

lemma has_passwd_exists: "has_passwd pd fs proj \<Longrightarrow> exists fs (joinpath pd proj)"
  using stat_parent [of fs "joinpath pd proj" "''.passwd''"]
  by (auto simp: has_passwd_def exists_def passwd_path_snoc)

lemmas demo_defs = demo_fs_def pd0_def demo_tokens_def no_bcrypt_def

lemmas path_defs = passwd_path_def joinpath_def parts_def stat_def exists_def has_passwd_def

text \<open>
  C5. A login with the correct password for a project that has a credential record
  returns a token, and \<open>project_from_token\<close> maps that token to exactly that project:
  directly after the login, and after any later logins as well (a later login of the
  same project stores the same token again). The registry before the login is any
  registry reached from the empty one by login requests.
\<close>

theorem login_token_resolves:
  assumes ok: "verify_password c pd fs (project req) (password req) = Inr True"
      and T: "T = run_logins c pd [] before"
  shows "fst (login c pd fs T req) = Inr (''token-'' @ project req)
       \<and> project_from_token (snd (login c pd fs T req)) (''token-'' @ project req)
           = Inr (project req)
       \<and> project_from_token (run_logins c pd (snd (login c pd fs T req)) later)
             (''token-'' @ project req)
           = Inr (project req)"
proof -
  let ?p = "project req"
  let ?T' = "snd (login c pd fs T req)"
  have hp: "has_passwd pd fs ?p"
    using ok by (auto simp: verify_password_def has_passwd_def exists_def split: option.splits)
  then have ex: "exists fs (joinpath pd ?p)" by (rule has_passwd_exists)
  have l: "login c pd fs T req = (Inr (''token-'' @ ?p), AList.update ?p (''token-'' @ ?p) T)"
    using ok ex hp by (simp add: login_def Let_def)
  have inv: "tokens_inv T" unfolding T by (rule tokens_inv_run) (simp add: tokens_inv_def)
  then have inv': "tokens_inv ?T'" by (rule tokens_inv_login)
  have key: "?p \<in> fst ` set ?T'" by (simp add: l AList.dom_update)
  show ?thesis
    using l project_from_token_inv [OF inv' key]
      project_from_token_inv [OF tokens_inv_run [OF inv'] keys_run [OF key]]
    by simp
qed

theorem login_token_resolves_witness:
  "verify_password no_bcrypt pd0 demo_fs ''DEMO'' ''secret123'' = Inr True
   \<and> fst (login no_bcrypt pd0 demo_fs [(''DEMO2'', ''token-DEMO2'')]
        \<lparr>project = ''DEMO'', password = ''secret123''\<rparr>) = Inr ''token-DEMO''
   \<and> project_from_token
        (snd (login no_bcrypt pd0 demo_fs [(''DEMO2'', ''token-DEMO2'')]
           \<lparr>project = ''DEMO'', password = ''secret123''\<rparr>)) ''token-DEMO'' = Inr ''DEMO''"
proof -
  have v: "verify_password no_bcrypt pd0 demo_fs ''DEMO'' ''secret123'' = Inr True"
    by (simp add: verify_password_def strip_def is_space_def demo_defs path_defs)
  have T: "[(''DEMO2'', ''token-DEMO2'')]
      = run_logins no_bcrypt pd0 [] [(demo_fs, \<lparr>project = ''DEMO2'', password = ''hunter2''\<rparr>)]"
    by (simp add: run_logins_def login_def Let_def verify_password_def strip_def is_space_def
        demo_defs path_defs)
  show ?thesis
    using v login_token_resolves [of no_bcrypt pd0 demo_fs
        "\<lparr>project = ''DEMO'', password = ''secret123''\<rparr>" "[(''DEMO2'', ''token-DEMO2'')]"
        "[(demo_fs, \<lparr>project = ''DEMO2'', password = ''hunter2''\<rparr>)]" "[]"] T
    by simp
qed

text \<open>
  C9. Every successful login returns the string \<^verbatim>\<open>token-\<close> followed by the project
  name, whatever the password, the registry, the tree and the time: two successful
  logins to the same project return the same token.
\<close>

theorem login_token_deterministic:
  assumes "fst (login c pd fs T req) = Inr tok"
      and "fst (login c' pd' fs' T' req') = Inr tok'"
      and "project req' = project req"
  shows "tok = ''token-'' @ project req \<and> tok' = tok"
  using assms login_cases [of c pd fs T req] login_cases [of c' pd' fs' T' req']
  by (cases "login c pd fs T req"; cases "login c' pd' fs' T' req'") auto

theorem login_token_deterministic_witness:
  "fst (login no_bcrypt pd0 demo_fs [] \<lparr>project = ''DEMO'', password = ''secret123''\<rparr>)
     = Inr ''token-DEMO''
   \<and> fst (login no_bcrypt pd0 demo_fs demo_tokens
        \<lparr>project = ''DEMO'', password = ''secret123''\<rparr>)
     = Inr ''token-DEMO''"
proof -
  have a: "fst (login no_bcrypt pd0 demo_fs [] \<lparr>project = ''DEMO'', password = ''secret123''\<rparr>)
     = Inr ''token-DEMO''"
    by (simp add: login_def Let_def verify_password_def strip_def is_space_def
        demo_defs path_defs)
  have b: "fst (login no_bcrypt pd0 demo_fs demo_tokens
        \<lparr>project = ''DEMO'', password = ''secret123''\<rparr>)
     = Inr ''token-DEMO''"
    by (simp add: login_def Let_def verify_password_def strip_def is_space_def
        demo_defs path_defs)
  from login_token_deterministic [OF a b] a b show ?thesis by simp
qed

text \<open>
  C6. When the credential record of a project is absent, \<open>verify_password\<close> is false for
  every presented secret, and every login against the project (an existing
  directory of the store) is rejected with status 401.
\<close>

theorem absent_record_fails_closed:
  assumes "\<not> has_passwd pd fs proj"
  shows "verify_password c pd fs proj secret = Inr False
       \<and> (exists fs (joinpath pd proj) \<longrightarrow>
            login c pd fs T \<lparr>project = proj, password = secret\<rparr>
              = (Inl (HTTPException 401 ''Password not set for project''), T)
            \<and> status_code (HTTPException 401 ''Password not set for project'') = 401)"
  using assms
  by (auto simp: verify_password_def has_passwd_def exists_def login_def split: option.splits)

theorem absent_record_fails_closed_witness:
  "\<not> has_passwd pd0 demo_fs ''EMPTY'' \<and> exists demo_fs (joinpath pd0 ''EMPTY'')
   \<and> verify_password no_bcrypt pd0 demo_fs ''EMPTY'' ''secret123'' = Inr False
   \<and> login no_bcrypt pd0 demo_fs demo_tokens \<lparr>project = ''EMPTY'', password = ''secret123''\<rparr>
       = (Inl (HTTPException 401 ''Password not set for project''), demo_tokens)"
proof -
  have a: "\<not> has_passwd pd0 demo_fs ''EMPTY''" by (simp add: demo_defs path_defs)
  have b: "exists demo_fs (joinpath pd0 ''EMPTY'')" by (simp add: demo_defs path_defs)
  from absent_record_fails_closed [OF a, of no_bcrypt "''secret123''" demo_tokens] a b
  show ?thesis by simp
qed

text \<open>
  Against C3 as stated. The two rejections of \<open>login\<close> do not carry the same body: a wrong password for
  \<^verbatim>\<open>DEMO\<close>, which has a record, and any password for \<^verbatim>\<open>EMPTY\<close>, which has none.
\<close>

theorem login_errors_distinguishable:
  "has_passwd pd0 demo_fs ''DEMO'' \<and> \<not> has_passwd pd0 demo_fs ''EMPTY''
   \<and> fst (login no_bcrypt pd0 demo_fs [] \<lparr>project = ''DEMO'', password = ''wrong''\<rparr>)
       = Inl (HTTPException 401 ''Invalid password'')
   \<and> fst (login no_bcrypt pd0 demo_fs [] \<lparr>project = ''EMPTY'', password = ''wrong''\<rparr>)
       = Inl (HTTPException 401 ''Password not set for project'')
   \<and> fst (login no_bcrypt pd0 demo_fs [] \<lparr>project = ''DEMO'', password = ''wrong''\<rparr>)
       \<noteq> fst (login no_bcrypt pd0 demo_fs [] \<lparr>project = ''EMPTY'', password = ''wrong''\<rparr>)"
  by (simp add: login_def Let_def verify_password_def strip_def is_space_def
      demo_defs path_defs)

text \<open>
  C3, as the code has it. A login with a wrong password for a project that has a
  credential record and a login with any password for a project that has none are
  both rejected with status 401 and leave the registry as it was, but the bodies
  differ: \<^verbatim>\<open>Invalid password\<close> for the first, \<^verbatim>\<open>Password not set for project\<close> for the
  second.
\<close>

theorem login_errors_same_status:
  assumes "verify_password c pd fs p1 pw1 = Inr False" and "has_passwd pd fs p1"
      and "exists fs (joinpath pd p2)" and "\<not> has_passwd pd fs p2"
  shows "login c pd fs T \<lparr>project = p1, password = pw1\<rparr>
           = (Inl (HTTPException 401 ''Invalid password''), T)
       \<and> login c pd fs T \<lparr>project = p2, password = pw2\<rparr>
           = (Inl (HTTPException 401 ''Password not set for project''), T)
       \<and> status_code (HTTPException 401 ''Invalid password'')
           = status_code (HTTPException 401 ''Password not set for project'')"
  using assms has_passwd_exists [of pd fs p1]
  by (simp add: login_def)

theorem login_errors_same_status_witness:
  "verify_password no_bcrypt pd0 demo_fs ''DEMO'' ''wrong'' = Inr False
   \<and> has_passwd pd0 demo_fs ''DEMO''
   \<and> exists demo_fs (joinpath pd0 ''EMPTY'') \<and> \<not> has_passwd pd0 demo_fs ''EMPTY''
   \<and> login no_bcrypt pd0 demo_fs [] \<lparr>project = ''DEMO'', password = ''wrong''\<rparr>
           = (Inl (HTTPException 401 ''Invalid password''), [])
   \<and> login no_bcrypt pd0 demo_fs [] \<lparr>project = ''EMPTY'', password = ''anything''\<rparr>
           = (Inl (HTTPException 401 ''Password not set for project''), [])"
proof -
  have a: "verify_password no_bcrypt pd0 demo_fs ''DEMO'' ''wrong'' = Inr False"
    by (simp add: verify_password_def strip_def is_space_def demo_defs path_defs)
  have b: "has_passwd pd0 demo_fs ''DEMO''" by (simp add: demo_defs path_defs)
  have c: "exists demo_fs (joinpath pd0 ''EMPTY'')" by (simp add: demo_defs path_defs)
  have d: "\<not> has_passwd pd0 demo_fs ''EMPTY''" by (simp add: demo_defs path_defs)
  from login_errors_same_status [OF a b c d, of "[]" "''anything''"] a b c d
  show ?thesis by simp
qed

section \<open>Credential verification\<close>

lemma dropWhile_decomp: "\<exists>l. xs = l @ dropWhile P xs \<and> list_all P l"
proof -
  have "xs = takeWhile P xs @ dropWhile P xs" by simp
  moreover have "list_all P (takeWhile P xs)"
    unfolding list_all_iff using set_takeWhileD by fast
  ultimately show ?thesis by blast
qed

lemma strip_decomp:
  "\<exists>l r. content = l @ strip content @ r \<and> list_all is_space l \<and> list_all is_space r"
proof -
  let ?m = "dropWhile is_space content"
  obtain l where l: "content = l @ ?m" "list_all is_space l"
    using dropWhile_decomp by blast
  obtain r' where r': "rev ?m = r' @ dropWhile is_space (rev ?m)" "list_all is_space r'"
    using dropWhile_decomp by blast
  have "rev (rev ?m) = rev (r' @ dropWhile is_space (rev ?m))"
    using r'(1) by (rule arg_cong)
  then have m: "?m = strip content @ rev r'" by (simp add: strip_def)
  have "list_all is_space (rev r')" using r'(2) by (simp add: list_all_iff)
  moreover have "content = l @ strip content @ rev r'" using l(1) m by simp
  ultimately show ?thesis using l(2) by blast
qed


lemma strip_ends:
  assumes ne: "strip content \<noteq> []"
  shows "\<not> is_space (hd (strip content)) \<and> \<not> is_space (last (strip content))"
proof -
  let ?m = "dropWhile is_space content"
  let ?t = "dropWhile is_space (rev ?m)"
  have s: "strip content = rev ?t" by (simp only: strip_def)
  with ne have t: "?t \<noteq> []" by simp
  then have "\<not> is_space (hd ?t)" by (rule hd_dropWhile)
  then have last: "\<not> is_space (last (strip content))"
    using t by (simp add: s last_rev)
  have "rev ?m = takeWhile is_space (rev ?m) @ ?t" by simp
  then have "rev (rev ?m) = rev (takeWhile is_space (rev ?m) @ ?t)" by (rule arg_cong)
  then have r: "?m = strip content @ rev (takeWhile is_space (rev ?m))"
    by (simp only: rev_rev_ident rev_append s)
  from ne have h: "hd (strip content @ rev (takeWhile is_space (rev ?m))) = hd (strip content)"
    by (rule hd_append2)
  from r ne have m: "?m \<noteq> []" by (metis append_is_Nil_conv)
  then have "\<not> is_space (hd ?m)" by (rule hd_dropWhile)
  with r h have "\<not> is_space (hd (strip content))" by metis
  with last show ?thesis by simp
qed


text \<open>
  C10. \<open>verify_password\<close> compares against the stored record with the white space at
  both ends removed, on the hashed path and on the plain path alike: what is removed
  is white space only, and what is left neither starts nor ends with white space.
  A plain record \<^verbatim>\<open>secret123\<close> followed by a newline therefore verifies the password
  \<^verbatim>\<open>secret123\<close>, and rejects the password that carries the newline itself.
\<close>

theorem verify_password_strips:
  assumes "stat fs (passwd_path pd proj) = Some (File content)"
  shows "verify_password c pd fs proj pw =
           Inr (if prefix ''$2'' (strip content) then c pw (strip content) = Some True
                else pw = strip content)
       \<and> (\<exists>l r. content = l @ strip content @ r \<and> list_all is_space l \<and> list_all is_space r)
       \<and> (strip content \<noteq> [] \<longrightarrow>
            \<not> is_space (hd (strip content)) \<and> \<not> is_space (last (strip content)))
       \<and> (content = ''secret123'' @ [CHR 0x0A] \<longrightarrow>
            verify_password c pd fs proj ''secret123'' = Inr True
            \<and> verify_password c pd fs proj (''secret123'' @ [CHR 0x0A]) = Inr False)"
proof -
  have 1: "verify_password c pd fs proj pw =
           Inr (if prefix ''$2'' (strip content) then c pw (strip content) = Some True
                else pw = strip content)" for pw
    using assms by (auto simp: verify_password_def Let_def split: option.splits)
  have 2: "strip (''secret123'' @ [CHR 0x0A]) = ''secret123''"
    by (simp add: strip_def is_space_def)
  have 3: "content = ''secret123'' @ [CHR 0x0A] \<longrightarrow>
            verify_password c pd fs proj ''secret123'' = Inr True
            \<and> verify_password c pd fs proj (''secret123'' @ [CHR 0x0A]) = Inr False"
  proof
    assume c: "content = ''secret123'' @ [CHR 0x0A]"
    have p: "\<not> prefix ''$2'' ''secret123''" by simp
    show "verify_password c pd fs proj ''secret123'' = Inr True
            \<and> verify_password c pd fs proj (''secret123'' @ [CHR 0x0A]) = Inr False"
      unfolding 1 c 2 using p by simp
  qed
  show ?thesis
    apply (intro conjI)
       apply (rule 1)
      apply (rule strip_decomp)
     apply (rule impI, erule strip_ends)
    apply (rule 3)
    done
qed

theorem verify_password_strips_witness:
  "stat demo_fs (passwd_path pd0 ''DEMO'') = Some (File (''secret123'' @ [CHR 0x0A]))
   \<and> verify_password no_bcrypt pd0 demo_fs ''DEMO'' ''secret123'' = Inr True
   \<and> verify_password no_bcrypt pd0 demo_fs ''DEMO'' (''secret123'' @ [CHR 0x0A]) = Inr False"
proof -
  have a: "stat demo_fs (passwd_path pd0 ''DEMO'') = Some (File (''secret123'' @ [CHR 0x0A]))"
    by (simp add: demo_defs path_defs)
  from verify_password_strips [OF a, of no_bcrypt "''secret123''"] a
  show ?thesis by blast
qed


section \<open>Paths\<close>

subsection \<open>Splitting and joining\<close>

lemma split_on_ne [simp]: "split_on c s \<noteq> []"
  by (induction s) (auto split: list.splits)

lemma split_on_nosep: "w \<in> set (split_on c s) \<Longrightarrow> c \<notin> set w"
  by (induction s arbitrary: w) (auto split: if_splits list.splits)

lemma join_slash_Cons: "ws \<noteq> [] \<Longrightarrow> join_slash (w # ws) = w @ CHR ''/'' # join_slash ws"
  by (cases ws) auto

lemma join_slash_Cons_Cons: "join_slash ((x # w) # ws) = x # join_slash (w # ws)"
  by (cases ws) auto

lemma join_split: "join_slash (split_on CHR ''/'' s) = s"
proof (induction s)
  case Nil
  then show ?case by simp
next
  case (Cons x s)
  obtain w ws where w: "split_on CHR ''/'' s = w # ws"
    by (cases "split_on CHR ''/'' s") auto
  show ?case
  proof (cases "x = CHR ''/''")
    case True
    then show ?thesis using Cons.IH by (simp add: join_slash_Cons)
  next
    case False
    then show ?thesis using Cons.IH by (simp add: w join_slash_Cons_Cons)
  qed
qed

lemma member_sublist_join: "w \<in> set ws \<Longrightarrow> sublist w (join_slash ws)"
proof (induction ws rule: join_slash.induct)
  case 1
  then show ?case by simp
next
  case (2 c)
  then show ?case by simp
next
  case (3 c d cs)
  from "3.prems" have "w = c \<or> w \<in> set (d # cs)" by auto
  then show ?case
  proof
    assume "w = c"
    then show ?thesis by simp
  next
    assume "w \<in> set (d # cs)"
    then have "sublist w (join_slash (d # cs))" by (rule "3.IH")
    then have "sublist w ((c @ [CHR ''/'']) @ join_slash (d # cs))"
      by (metis sublist_append)
    then show ?thesis by simp
  qed
qed

lemma parts_member:
  assumes "c \<in> set (parts s)"
  shows "c \<noteq> []" and "c \<noteq> ''.''" and "CHR ''/'' \<notin> set c" and "sublist c s"
proof -
  from assms have m: "c \<in> set (split_on CHR ''/'' s)" and ne: "c \<noteq> []" "c \<noteq> ''.''"
    by (auto simp: parts_def)
  from ne show "c \<noteq> []" and "c \<noteq> ''.''" .
  from m show "CHR ''/'' \<notin> set c" by (rule split_on_nosep)
  from member_sublist_join [OF m] show "sublist c s" by (simp add: join_split)
qed

lemma split_on_nosep_id: "c \<notin> set w \<Longrightarrow> split_on c w = [w]"
  by (induction w) auto

lemma split_on_append_sep: "c \<notin> set w \<Longrightarrow> split_on c (w @ c # s) = w # split_on c s"
  by (induction w) auto

lemma split_on_join:
  "\<forall>c\<in>set ys. CHR ''/'' \<notin> set c \<Longrightarrow> ys \<noteq> [] \<Longrightarrow> split_on CHR ''/'' (join_slash ys) = ys"
  by (induction ys rule: join_slash.induct) (auto simp: split_on_nosep_id split_on_append_sep)

lemma parts_join_slash:
  assumes "\<forall>c\<in>set ys. c \<noteq> [] \<and> c \<noteq> ''.'' \<and> CHR ''/'' \<notin> set c"
  shows "parts (join_slash ys) = ys"
proof (cases "ys = []")
  case True
  then show ?thesis by (simp add: parts_def)
next
  case False
  with assms have "split_on CHR ''/'' (join_slash ys) = ys" by (simp add: split_on_join)
  with assms show ?thesis by (simp add: parts_def filter_id_conv)
qed

lemma parts_parts: "parts (join_slash (parts s)) = parts s"
  by (rule parts_join_slash) (auto dest: parts_member)

lemma join_parts_no_slash: "\<not> prefix ''/'' (join_slash (parts s))"
proof (cases "parts s")
  case Nil
  then show ?thesis by simp
next
  case (Cons c cs)
  then have "c \<in> set (parts s)" by simp
  from parts_member(1,3) [OF this] obtain x w where c: "c = x # w" and x: "x \<noteq> CHR ''/''"
    by (cases c) auto
  from x show ?thesis by (auto simp: Cons c join_slash_Cons_Cons)
qed

lemma dropWhile_no_slash: "\<not> prefix ''/'' s \<Longrightarrow> dropWhile (\<lambda>c. c = CHR ''/'') s = s"
  by (cases s) auto

lemma rel_of_cases:
  "rel_of path = ''.'' \<and> parts (backslash_to_slash path) = []
   \<or> rel_of path = join_slash (parts (backslash_to_slash path))"
  by (auto simp: rel_of_def as_posix_def dropWhile_no_slash join_parts_no_slash)

lemma rel_of_relative: "\<not> prefix ''/'' (rel_of path)"
  using rel_of_cases [of path] join_parts_no_slash [of "backslash_to_slash path"] by auto

lemma parts_rel_of: "parts (rel_of path) = parts (backslash_to_slash path)"
  using rel_of_cases [of path] by (auto simp: parts_parts) (simp add: parts_def)

lemma joinpath_rel_of: "joinpath base (rel_of path) = base @ parts (backslash_to_slash path)"
  by (simp add: joinpath_def rel_of_relative parts_rel_of)

lemma rel_of_no_dotdot:
  assumes "\<not> sublist ''..'' (rel_of path)"
  shows "''..'' \<notin> set (parts (backslash_to_slash path))"
proof
  assume "''..'' \<in> set (parts (backslash_to_slash path))"
  then have "''..'' \<in> set (parts (rel_of path))" by (simp add: parts_rel_of)
  then have "sublist ''..'' (rel_of path)" by (rule parts_member(4))
  with assms show False by contradiction
qed

subsection \<open>Resolving\<close>

lemma foldl_push:
  "''..'' \<notin> set ys \<Longrightarrow>
     foldl (\<lambda>acc c. if c = ''..'' then butlast acc else acc @ [c]) acc ys = acc @ ys"
  by (induction ys arbitrary: acc) auto

lemma resolve_append: "''..'' \<notin> set ys \<Longrightarrow> resolve (xs @ ys) = resolve xs @ ys"
  by (simp add: resolve_def foldl_push)

lemma path_str_prefix: "prefix (path_str r) (path_str (r @ ys))"
  by (cases r; cases ys) (auto simp: path_str_def)

subsection \<open>From the prefix test on strings to components\<close>








lemma joinpath_slash_free:
  "\<forall>c\<in>set base. CHR ''/'' \<notin> set c \<Longrightarrow> \<forall>c\<in>set (joinpath base seg). CHR ''/'' \<notin> set c"
  by (auto simp: joinpath_def dest: parts_member(3))

section \<open>The directory tree after an upload\<close>

lemma map_of_update_same: "map_of (AList.update c v es) c = Some v"
  by (simp add: AList.update_conv')

lemma mkdirs_lookup: "mkdirs n p = Some n' \<Longrightarrow> \<exists>es. lookup n' p = Some (Dir es)"
proof (induction n p arbitrary: n' rule: mkdirs.induct)
  case (1 b p)
  then show ?case by simp
next
  case (2 es)
  then show ?case by auto
next
  case (3 es c cs)
  let ?sub = "case map_of es c of None \<Rightarrow> Dir [] | Some n \<Rightarrow> n"
  from "3.prems" obtain m where m: "mkdirs ?sub cs = Some m" and n': "n' = Dir (AList.update c m es)"
    by auto
  from "3.IH" [OF m] show ?case by (simp add: n' map_of_update_same)
qed

lemma put_lookup: "put n p b = Some n' \<Longrightarrow> lookup n' p = Some (File b)"
proof (induction n p b arbitrary: n' rule: put.induct)
  case (4 es c cs b)
  show ?case
  proof (cases "map_of es c")
    case None
    with "4.prems" show ?thesis by (auto simp: map_of_update_same split: if_splits)
  next
    case (Some n)
    with "4.prems" obtain m where m: "put n cs b = Some m" and n': "n' = Dir (AList.update c m es)"
      by auto
    from "4.IH" [OF Some m] show ?thesis by (simp add: n' map_of_update_same)
  qed
qed auto

lemma put_put: "put n p b = Some n' \<Longrightarrow> \<exists>n''. put n' p b' = Some n''"
proof (induction n p b arbitrary: n' rule: put.induct)
  case (4 es c cs b)
  show ?case
  proof (cases "map_of es c")
    case None
    with "4.prems" show ?thesis by (auto simp: map_of_update_same split: if_splits)
  next
    case (Some n)
    with "4.prems" obtain m where m: "put n cs b = Some m" and n': "n' = Dir (AList.update c m es)"
      by auto
    from "4.IH" [OF Some m] show ?thesis by (auto simp: n' map_of_update_same)
  qed
qed auto

text \<open>Neither operation changes a path that is not a leading part of its argument.\<close>

lemma map_of_update_other: "c' \<noteq> c \<Longrightarrow> map_of (AList.update c v es) c' = map_of es c'"
  by (simp add: AList.update_conv')

lemma lookup_empty_dir: "q \<noteq> [] \<Longrightarrow> lookup (Dir []) q = None"
  by (cases q) auto

lemma mkdirs_frame: "mkdirs n p = Some n' \<Longrightarrow> \<not> prefix q p \<Longrightarrow> lookup n' q = lookup n q"
proof (induction n p arbitrary: n' q rule: mkdirs.induct)
  case (1 b p)
  then show ?case by simp
next
  case (2 es)
  then show ?case by simp
next
  case (3 es c cs)
  let ?sub = "case map_of es c of None \<Rightarrow> Dir [] | Some n \<Rightarrow> n"
  from "3.prems"(1) obtain m where m: "mkdirs ?sub cs = Some m" and n': "n' = Dir (AList.update c m es)"
    by auto
  from "3.prems"(2) obtain c' q' where q: "q = c' # q'" by (cases q) auto
  show ?case
  proof (cases "c' = c")
    case False
    then show ?thesis by (simp add: q n' map_of_update_other)
  next
    case True
    with "3.prems"(2) have np: "\<not> prefix q' cs" by (simp add: q)
    then have q': "q' \<noteq> []" by auto
    from "3.IH" [OF m np] have "lookup m q' = lookup ?sub q'" .
    then show ?thesis
      by (cases "map_of es c") (simp_all add: q n' True map_of_update_same lookup_empty_dir q')
  qed
qed

lemma put_frame: "put n p b = Some n' \<Longrightarrow> \<not> prefix q p \<Longrightarrow> lookup n' q = lookup n q"
proof (induction n p b arbitrary: n' q rule: put.induct)
  case (1 old b)
  then show ?case by (cases q) auto
next
  case (2 es b)
  then show ?case by simp
next
  case (3 old c cs b)
  then show ?case by simp
next
  case (4 es c cs b)
  from "4.prems"(2) obtain c' q' where q: "q = c' # q'" by (cases q) auto
  show ?case
  proof (cases "c' = c")
    case False
    with "4.prems"(1) show ?thesis
      by (auto simp: q map_of_update_other split: option.splits if_splits)
  next
    case True
    with "4.prems"(2) have np: "\<not> prefix q' cs" by (simp add: q)
    then have q': "q' \<noteq> []" by auto
    show ?thesis
    proof (cases "map_of es c")
      case None
      with "4.prems"(1) q' show ?thesis
        by (cases q') (auto simp: q True map_of_update_same split: if_splits)
    next
      case (Some sub)
      with "4.prems"(1) obtain m where m: "put sub cs b = Some m"
        and n': "n' = Dir (AList.update c m es)" by auto
      from "4.IH" [OF Some m np] show ?thesis
        by (simp add: q True n' map_of_update_same Some)
    qed
  qed
qed

lemma prefix_butlast: "prefix q (butlast p) \<Longrightarrow> prefix q p"
  by (metis prefix_order.trans prefixeq_butlast)

lemma upload_frame:
  assumes mk: "mkdirs fs (butlast dest) = Some fs1"
      and op: "put fs1 dest [] = Some fs2"
      and wr: "put fs2 dest w = Some fs3"
      and q: "\<not> prefix q dest"
  shows "lookup fs3 q = lookup fs q"
proof -
  from q have "\<not> prefix q (butlast dest)" using prefix_butlast by blast
  from mkdirs_frame [OF mk this] put_frame [OF op q] put_frame [OF wr q]
  show ?thesis by simp
qed

subsection \<open>Copying the stream\<close>

lemma copyfileobj_complete:
  "[] \<notin> set cs \<Longrightarrow> copyfileobj (map Data cs) acc = (acc @ concat cs, True)"
  by (induction cs arbitrary: acc) auto

lemma copyfileobj_fail:
  "[] \<notin> set cs \<Longrightarrow> copyfileobj (map Data cs @ Fail # rest) acc = (acc @ concat cs, False)"
  by (induction cs arbitrary: acc) auto

subsection \<open>An upload that passes the path validation\<close>

lemma upload_dest:
  assumes "\<not> sublist ''..'' (rel_of path)"
  shows "resolve (joinpath (joinpath pd proj) (rel_of path))
           = resolve (joinpath pd proj) @ parts (backslash_to_slash path)"
  using assms by (simp add: joinpath_rel_of resolve_append rel_of_no_dotdot)

lemma upload_valid:
  assumes auth: "require_bearer a = Inr token" "project_from_token T token = Inr proj"
      and nodots: "\<not> sublist ''..'' (rel_of path)"
      and dest: "dest = resolve (joinpath pd proj) @ parts (backslash_to_slash path)"
  shows "upload pd fs T a path file =
     (case mkdirs fs (butlast dest) of
        None \<Rightarrow> (Inl (Uncaught ''OSError''), fs)
      | Some fs1 \<Rightarrow>
     (case put fs1 dest [] of
        None \<Rightarrow> (Inl (Uncaught ''OSError''), fs1)
      | Some fs2 \<Rightarrow>
     (case put fs2 dest (fst (copyfileobj file [])) of
        None \<Rightarrow> (Inl (Uncaught ''OSError''), fs2)
      | Some fs3 \<Rightarrow>
          if \<not> snd (copyfileobj file []) then (Inl (Uncaught ''OSError''), fs3)
          else (Inr (backslash_to_slash
                  (if parts (backslash_to_slash path) = [] then ''.''
                   else join_slash (parts (backslash_to_slash path)))), fs3))))"
proof -
  let ?root = "resolve (joinpath pd proj)"
  let ?ys = "parts (backslash_to_slash path)"
  define saved where "saved = (if ?ys = [] then ''.'' else join_slash ?ys)"
  have r: "relative_to (?root @ ?ys) ?root = Some saved"
    by (simp add: relative_to_def saved_def)
  have v: "\<not> (sublist ''..'' (rel_of path) \<or> prefix ''/'' (rel_of path))"
    using nodots rel_of_relative [of path] by simp
  have p: "prefix (path_str ?root) (path_str (?root @ ?ys))"
    by (rule path_str_prefix)
  show ?thesis
    unfolding dest saved_def [symmetric]
    by (simp add: upload_def auth Let_def upload_dest [OF nodots] v p r case_prod_beta
        cong: option.case_cong if_cong)
qed

lemma upload_auth:
  assumes "upload pd fs T a path file = (Inr saved, fs')"
  shows "\<exists>token proj. require_bearer a = Inr token \<and> project_from_token T token = Inr proj
           \<and> \<not> sublist ''..'' (rel_of path)"
  using assms by (auto simp: upload_def Let_def split: sum.splits if_splits)

lemma download_resolves:
  assumes auth: "require_bearer a = Inr token" "project_from_token T token = Inr proj"
      and rel: "\<not> prefix ''/'' q" and nodots: "''..'' \<notin> set (parts q)"
      and hit: "lookup fs (resolve (joinpath pd proj) @ parts q) = Some (File B)"
  shows "download_bytes pd fs T a q = Inr B"
proof -
  let ?fpath = "resolve (joinpath (joinpath pd proj) q)"
  have f: "?fpath = resolve (joinpath pd proj) @ parts q"
    using rel nodots by (simp add: joinpath_def [of _ q] resolve_append)
  have "lookup fs ?fpath = Some (File B)" using hit by (simp only: f)
  moreover from this have "exists fs ?fpath" by (simp add: exists_resolve)
  moreover have "prefix (path_str (resolve (joinpath pd proj))) (path_str ?fpath)"
    by (simp only: f path_str_prefix)
  ultimately show ?thesis
    by (simp add: download_bytes_def download_def auth Let_def)
qed

lemma no_backslash_id: "CHR 0x5C \<notin> set s \<Longrightarrow> backslash_to_slash s = s"
  by (induction s) (auto simp: backslash_to_slash_def)

lemma backslash_to_slash_free: "CHR 0x5C \<notin> set (backslash_to_slash s)"
  by (auto simp: backslash_to_slash_def)

lemma set_join_slash: "set (join_slash ws) \<subseteq> \<Union>(set ` set ws) \<union> {CHR ''/''}"
  by (induction ws rule: join_slash.induct) auto

lemma parts_backslash_free:
  assumes "c \<in> set (parts (backslash_to_slash s))"
  shows "CHR 0x5C \<notin> set c"
proof -
  from assms have "sublist c (backslash_to_slash s)" by (rule parts_member(4))
  then have "set c \<subseteq> set (backslash_to_slash s)" by (rule set_mono_sublist)
  then show ?thesis using backslash_to_slash_free [of s] by blast
qed

lemma saved_backslash_free:
  "backslash_to_slash (join_slash (parts (backslash_to_slash s)))
     = join_slash (parts (backslash_to_slash s))"
proof (rule no_backslash_id)
  show "CHR 0x5C \<notin> set (join_slash (parts (backslash_to_slash s)))"
    using set_join_slash [of "parts (backslash_to_slash s)"] parts_backslash_free [of _ s]
    by auto
qed

section \<open>Upload and download\<close>

lemmas eval_defs = upload_def download_def download_bytes_def require_bearer_def rel_of_def
  backslash_to_slash_def as_posix_def resolve_def path_str_def relative_to_def Let_def
  sublist_Cons_right

text \<open>
  Against C2 as stated. An upload that is cut after its first chunk: the request
  fails, and the file that held \<^verbatim>\<open>OLD\<close> before now holds the chunk that arrived.
\<close>

theorem upload_interrupted_partial:
  "lookup demo_fs [''srv'', ''projects'', ''DEMO'', ''a.bgeo''] = Some (File ''OLD'')
   \<and> fst (upload pd0 demo_fs demo_tokens (Some ''Bearer token-DEMO'') ''a.bgeo''
          [Data ''NE'', Fail]) = Inl (Uncaught ''OSError'')
   \<and> lookup (snd (upload pd0 demo_fs demo_tokens (Some ''Bearer token-DEMO'') ''a.bgeo''
          [Data ''NE'', Fail])) [''srv'', ''projects'', ''DEMO'', ''a.bgeo'']
       = Some (File ''NE'')"
  by (simp add: eval_defs demo_defs path_defs)

text \<open>
  C2, as the code has it. \<open>upload\<close> opens the destination itself for writing and copies
  the chunks into it; there is no temporary file and no rename. For a path that
  passes the validation and a destination that can be opened: when the copy fails
  after some chunks, the request fails and the destination holds exactly the bytes
  that arrived before the failure (what was stored there before is gone); when the
  copy comes to its end, the destination holds the whole stream. In both cases no
  path other than the destination and the directories above it changes.
\<close>

theorem upload_writes_in_place:
  assumes auth: "require_bearer a = Inr token" "project_from_token T token = Inr proj"
      and nodots: "\<not> sublist ''..'' (rel_of path)"
      and dest: "dest = resolve (joinpath pd proj) @ parts (backslash_to_slash path)"
      and mk: "mkdirs fs (butlast dest) = Some fs1"
      and op: "put fs1 dest [] \<noteq> None"
      and cs: "[] \<notin> set cs"
      and interrupted: "interrupted = upload pd fs T a path (map Data cs @ Fail # rest)"
      and completed: "completed = upload pd fs T a path (map Data cs)"
  shows "fst interrupted = Inl (Uncaught ''OSError'')
       \<and> lookup (snd interrupted) dest = Some (File (concat cs))
       \<and> (\<forall>q. \<not> prefix q dest \<longrightarrow> lookup (snd interrupted) q = lookup fs q)
       \<and> (\<exists>saved. fst completed = Inr saved)
       \<and> lookup (snd completed) dest = Some (File (concat cs))
       \<and> (\<forall>q. \<not> prefix q dest \<longrightarrow> lookup (snd completed) q = lookup fs q)"
proof -
  from op obtain fs2 where fs2: "put fs1 dest [] = Some fs2" by auto
  from put_put [OF fs2] obtain fs3 where fs3: "put fs2 dest (concat cs) = Some fs3" by blast
  from put_lookup [OF fs3] have l: "lookup fs3 dest = Some (File (concat cs))" .
  have fr: "\<forall>q. \<not> prefix q dest \<longrightarrow> lookup fs3 q = lookup fs q"
    using upload_frame [OF mk fs2 fs3] by blast
  have 1: "interrupted = (Inl (Uncaught ''OSError''), fs3)"
    by (simp add: interrupted upload_valid [OF auth nodots dest] mk fs2 copyfileobj_fail [OF cs] fs3)
  have 2: "\<exists>saved. completed = (Inr saved, fs3)"
    by (simp add: completed upload_valid [OF auth nodots dest] mk fs2 copyfileobj_complete [OF cs] fs3)
  then obtain saved where 3: "completed = (Inr saved, fs3)" by blast
  show ?thesis using l fr by (simp add: 1 3)
qed

theorem upload_writes_in_place_witness:
  "lookup demo_fs [''srv'', ''projects'', ''DEMO'', ''a.bgeo''] = Some (File ''OLD'')
   \<and> fst (upload pd0 demo_fs demo_tokens (Some ''Bearer token-DEMO'') ''a.bgeo''
          (map Data [''NE''] @ Fail # [Data ''W''])) = Inl (Uncaught ''OSError'')
   \<and> lookup (snd (upload pd0 demo_fs demo_tokens (Some ''Bearer token-DEMO'') ''a.bgeo''
          (map Data [''NE''] @ Fail # [Data ''W''])))
        [''srv'', ''projects'', ''DEMO'', ''a.bgeo''] = Some (File (concat [''NE'']))
   \<and> lookup (snd (upload pd0 demo_fs demo_tokens (Some ''Bearer token-DEMO'') ''a.bgeo''
          (map Data [''NE''])))
        [''srv'', ''projects'', ''DEMO'', ''a.bgeo''] = Some (File (concat [''NE'']))"
proof -
  have a: "require_bearer (Some ''Bearer token-DEMO'') = Inr ''token-DEMO''"
    by (simp add: require_bearer_def)
  have b: "project_from_token demo_tokens ''token-DEMO'' = Inr ''DEMO''"
    by (simp add: demo_tokens_def)
  have c: "\<not> sublist ''..'' (rel_of ''a.bgeo'')"
    by (simp add: rel_of_def backslash_to_slash_def as_posix_def parts_def sublist_Cons_right)
  have d: "[''srv'', ''projects'', ''DEMO'', ''a.bgeo'']
      = resolve (joinpath pd0 ''DEMO'') @ parts (backslash_to_slash ''a.bgeo'')"
    by (simp add: resolve_def joinpath_def parts_def pd0_def backslash_to_slash_def)
  have e: "mkdirs demo_fs (butlast [''srv'', ''projects'', ''DEMO'', ''a.bgeo'']) = Some demo_fs"
    by (simp add: demo_fs_def)
  have f: "put demo_fs [''srv'', ''projects'', ''DEMO'', ''a.bgeo''] [] \<noteq> None"
    by (simp add: demo_fs_def)
  have g: "[] \<notin> set [''NE'']" by simp
  have h: "lookup demo_fs [''srv'', ''projects'', ''DEMO'', ''a.bgeo''] = Some (File ''OLD'')"
    by (simp add: demo_fs_def)
  from upload_writes_in_place [OF a b c d e f g refl refl, where rest = "[Data ''W'']"] h
  show ?thesis by blast
qed

text \<open>
  The round trip for a path in the separator convention of the server. Uploading
  the bytes \<open>B\<close> (in any chunking) to a relative path \<open>P\<close> that the upload accepts, and
  then downloading with the same token on the resulting tree, yields exactly \<open>B\<close>:
  for the path the upload reports as saved, and for \<open>P\<close> itself when it does not
  start with a slash and holds no backslash.
\<close>

theorem upload_download_roundtrip:
  assumes up: "fst (upload pd fs T a P (map Data cs)) = Inr saved"
      and cs: "[] \<notin> set cs"
      and fs': "fs' = snd (upload pd fs T a P (map Data cs))"
  shows "download_bytes pd fs' T a saved = Inr (concat cs)
       \<and> (CHR 0x5C \<notin> set P \<and> \<not> prefix ''/'' P \<longrightarrow> download_bytes pd fs' T a P = Inr (concat cs))"
proof -
  from up have up': "upload pd fs T a P (map Data cs) = (Inr saved, fs')"
    by (simp add: fs' prod_eq_iff)
  from upload_auth [OF up'] obtain token proj
    where auth: "require_bearer a = Inr token" "project_from_token T token = Inr proj"
      and nodots: "\<not> sublist ''..'' (rel_of P)" by blast
  let ?ys = "parts (backslash_to_slash P)"
  define dest where "dest = resolve (joinpath pd proj) @ ?ys"
  from up' obtain fs2 where w: "put fs2 dest (concat cs) = Some fs'"
    and sv: "saved = backslash_to_slash (if ?ys = [] then ''.'' else join_slash ?ys)"
    by (auto simp: upload_valid [OF auth nodots dest_def] copyfileobj_complete [OF cs]
        split: option.splits if_splits)
  from w have l: "lookup fs' dest = Some (File (concat cs))" by (rule put_lookup)
  have nd: "''..'' \<notin> set ?ys" by (rule rel_of_no_dotdot [OF nodots])
  have 1: "download_bytes pd fs' T a saved = Inr (concat cs)"
  proof (cases "?ys = []")
    case True
    then have s: "saved = ''.''" by (simp add: sv backslash_to_slash_def)
    have p: "parts ''.'' = []" by (simp add: parts_def)
    have "\<not> prefix ''/'' saved" and "''..'' \<notin> set (parts saved)"
      by (simp_all add: s p)
    moreover have "lookup fs' (resolve (joinpath pd proj) @ parts saved) = Some (File (concat cs))"
      using l by (simp add: s p dest_def True)
    ultimately show ?thesis by (rule download_resolves [OF auth])
  next
    case False
    then have s: "saved = join_slash ?ys" by (simp add: sv saved_backslash_free)
    have p: "parts saved = ?ys" unfolding s by (rule parts_parts)
    have r: "\<not> prefix ''/'' saved" unfolding s by (rule join_parts_no_slash)
    have "''..'' \<notin> set (parts saved)" using nd by (simp add: p)
    moreover have "lookup fs' (resolve (joinpath pd proj) @ parts saved) = Some (File (concat cs))"
      using l by (simp add: p dest_def)
    ultimately show ?thesis by (rule download_resolves [OF auth r])
  qed
  have 2: "CHR 0x5C \<notin> set P \<and> \<not> prefix ''/'' P \<longrightarrow> download_bytes pd fs' T a P = Inr (concat cs)"
  proof (intro impI, elim conjE)
    assume P: "CHR 0x5C \<notin> set P" "\<not> prefix ''/'' P"
    have ys: "?ys = parts P" using P(1) by (simp add: no_backslash_id)
    have "''..'' \<notin> set (parts P)" using nd by (simp add: ys)
    moreover have "lookup fs' (resolve (joinpath pd proj) @ parts P) = Some (File (concat cs))"
      using l by (simp add: ys dest_def)
    ultimately show "download_bytes pd fs' T a P = Inr (concat cs)"
      by (rule download_resolves [OF auth P(2)])
  qed
  from 1 2 show ?thesis by blast
qed

theorem upload_download_roundtrip_witness:
  "fst (upload pd0 demo_fs demo_tokens (Some ''Bearer token-DEMO'') ''cpio/sop/x.cpio''
          (map Data [''ab'', ''c''])) = Inr ''cpio/sop/x.cpio''
   \<and> CHR 0x5C \<notin> set ''cpio/sop/x.cpio'' \<and> \<not> prefix ''/'' ''cpio/sop/x.cpio''
   \<and> download_bytes pd0
        (snd (upload pd0 demo_fs demo_tokens (Some ''Bearer token-DEMO'') ''cpio/sop/x.cpio''
          (map Data [''ab'', ''c''])))
        demo_tokens (Some ''Bearer token-DEMO'') ''cpio/sop/x.cpio'' = Inr (concat [''ab'', ''c''])"
proof -
  have a: "fst (upload pd0 demo_fs demo_tokens (Some ''Bearer token-DEMO'') ''cpio/sop/x.cpio''
          (map Data [''ab'', ''c''])) = Inr ''cpio/sop/x.cpio''"
    by (simp add: eval_defs demo_defs path_defs)
  have b: "[] \<notin> set [''ab'', ''c'']" by simp
  have c: "CHR 0x5C \<notin> set ''cpio/sop/x.cpio'' \<and> \<not> prefix ''/'' ''cpio/sop/x.cpio''" by simp
  from upload_download_roundtrip [OF a b refl] a c show ?thesis by blast
qed

text \<open>
  C4 at a path written with backslashes. \<open>upload\<close> turns the backslash into a slash
  and stores the bytes at \<^verbatim>\<open>sub/x.bgeo\<close>; \<open>download\<close> does no such thing, takes the same
  string as the name of one file in the project directory, and answers 404. The
  bytes are there under the path the upload reported.
\<close>

theorem backslash_path_not_found:
  "fst (upload pd0 demo_fs demo_tokens (Some ''Bearer token-DEMO'')
          (''sub'' @ [CHR 0x5C] @ ''x.bgeo'') [Data ''B'']) = Inr ''sub/x.bgeo''
   \<and> download_bytes pd0
        (snd (upload pd0 demo_fs demo_tokens (Some ''Bearer token-DEMO'')
          (''sub'' @ [CHR 0x5C] @ ''x.bgeo'') [Data ''B'']))
        demo_tokens (Some ''Bearer token-DEMO'') (''sub'' @ [CHR 0x5C] @ ''x.bgeo'')
       = Inl (HTTPException 404 ''File not found'')
   \<and> download_bytes pd0
        (snd (upload pd0 demo_fs demo_tokens (Some ''Bearer token-DEMO'')
          (''sub'' @ [CHR 0x5C] @ ''x.bgeo'') [Data ''B'']))
        demo_tokens (Some ''Bearer token-DEMO'') ''sub/x.bgeo''
       = Inr ''B''"
  by (simp add: eval_defs demo_defs path_defs)

section \<open>Path validation\<close>


text \<open>
  The test of \<open>download\<close> compares strings, so a path into the directory of a project
  whose name starts with the name of the session's project passes it, while
  \<open>upload\<close> rejects the same path.
\<close>

lemma download_sibling_prefix:
  "download_bytes pd0 demo_fs demo_tokens (Some ''Bearer token-DEMO'') ''../DEMO2/secret.vdb''
     = Inr ''TOPSECRET''
   \<and> beside_root (resolve (joinpath pd0 ''DEMO''))
        (resolve (joinpath (joinpath pd0 ''DEMO'') ''../DEMO2/secret.vdb''))
   \<and> fst (upload pd0 demo_fs demo_tokens (Some ''Bearer token-DEMO'') ''../DEMO2/secret.vdb''
          [Data ''x'']) = Inl (HTTPException 400 ''Invalid path'')"
  by (simp add: eval_defs beside_root_def strict_prefix_def demo_defs path_defs)















section \<open>Download of what is not a regular file\<close>

text \<open>
  \<open>download\<close> sends bytes for regular files only, and a path that names nothing is
  status 404.
\<close>

lemma download_bytes_regular_file:
  assumes "download_bytes pd fs T a path = Inr b"
  shows "\<exists>p. download pd fs T a path = Inr (FileResponse p) \<and> lookup fs p = Some (File b)"
proof (cases "download pd fs T a path")
  case (Inl e)
  with assms show ?thesis by (simp add: download_bytes_def)
next
  case (Inr r)
  obtain p where r: "r = FileResponse p" by (cases r)
  from assms show ?thesis
    by (auto simp: download_bytes_def Inr r split: option.splits node.splits)
qed

lemma download_missing_404:
  assumes "require_bearer a = Inr token" "project_from_token T token = Inr proj"
      and "prefix (path_str (resolve (joinpath pd proj)))
             (path_str (resolve (joinpath (joinpath pd proj) path)))"
      and "lookup fs (resolve (joinpath (joinpath pd proj) path)) = None"
  shows "download pd fs T a path = Inl (HTTPException 404 ''File not found'')"
  using assms by (simp add: download_def exists_resolve)

text \<open>
  C8 at a directory. The path \<^verbatim>\<open>thumbs\<close> passes the validation and names a directory
  of the project: \<open>download\<close> does not answer 404 but returns the response for the
  directory, which then fails while it is sent (status 500). No bytes are sent.
\<close>

theorem download_directory_not_404:
  "lookup demo_fs [''srv'', ''projects'', ''DEMO'', ''thumbs''] = Some (Dir [])
   \<and> download pd0 demo_fs demo_tokens (Some ''Bearer token-DEMO'') ''thumbs''
       = Inr (FileResponse [''srv'', ''projects'', ''DEMO'', ''thumbs''])
   \<and> download_bytes pd0 demo_fs demo_tokens (Some ''Bearer token-DEMO'') ''thumbs''
       = Inl (Uncaught ''RuntimeError'')
   \<and> status_code (Uncaught ''RuntimeError'') = 500"
  by (simp add: eval_defs demo_defs path_defs)

section \<open>Manifest\<close>

lemma walk_dirs_files: "\<forall>e\<in>set es. \<exists>b. snd e = File b \<Longrightarrow> walk_dirs rel es = []"
  by (induction es) auto

lemma map_filter_append: "List.map_filter g (xs @ ys) = List.map_filter g xs @ List.map_filter g ys"
  by (simp add: List.map_filter_def)

lemma scan_flat_aux:
  "List.map_filter (\<lambda>(rel, fname, content). asset_of rel fname content)
     (concat (map (\<lambda>(f, n). case n of File b \<Rightarrow> [(rel, f, b)] | Dir ds \<Rightarrow> []) es))
   = concat (map (records_of rel) es)"
proof (induction es)
  case Nil
  then show ?case by (simp add: List.map_filter_def)
next
  case (Cons e es)
  obtain f n where e: "e = (f, n)" by (cases e)
  show ?case
    using Cons.IH
    by (cases n) (auto simp: e map_filter_append records_of_def List.map_filter_def split: option.splits)
qed

lemma scan_flat:
  assumes "stat fs proj_dir = Some (Dir es)" and "\<forall>e\<in>set es. \<exists>b. snd e = File b"
  shows "scan fs proj_dir = concat (map (records_of []) es)"
  using assms by (simp add: scan_def walk_dirs_files scan_flat_aux)

lemma mset_concat_map: "mset (concat (map h es)) = (\<Sum>e\<in>#mset es. mset (h e))"
  by (induction es) auto

lemma asset_a: "asset_of [] ''a.bgeo'' ba =
  Some \<lparr>asset_id = ''a'', asset_type = ''bgeo'', asset_version = 1, asset_path = ''a.bgeo'',
        asset_thumb = None, asset_bytes_total = length ba\<rparr>"
  by (simp add: asset_of_def path_suffix_def path_stem_def lower_char_def exts_def Let_def)

lemma asset_b: "asset_of [] ''b.vdb'' bb =
  Some \<lparr>asset_id = ''b'', asset_type = ''vdb'', asset_version = 1, asset_path = ''b.vdb'',
        asset_thumb = None, asset_bytes_total = length bb\<rparr>"
  by (simp add: asset_of_def path_suffix_def path_stem_def lower_char_def exts_def Let_def)

lemma asset_readme: "asset_of [] ''readme.txt'' br = None"
  by (simp add: asset_of_def path_suffix_def path_stem_def lower_char_def exts_def Let_def)

text \<open>
  C7. For a project directory whose listing holds exactly the regular files
  \<^verbatim>\<open>a.bgeo\<close>, \<^verbatim>\<open>b.vdb\<close> and \<^verbatim>\<open>readme.txt\<close>, in any order and with any content, the scan
  of the manifest yields exactly two records, one for \<^verbatim>\<open>a.bgeo\<close> and one for \<^verbatim>\<open>b.vdb\<close>;
  \<^verbatim>\<open>readme.txt\<close> yields none.
\<close>

theorem manifest_three_files:
  assumes top: "stat fs proj_dir = Some (Dir es)"
      and es: "mset es = {#(''a.bgeo'', File ba), (''b.vdb'', File bb), (''readme.txt'', File br)#}"
  shows "mset (scan fs proj_dir) =
    {#\<lparr>asset_id = ''a'', asset_type = ''bgeo'', asset_version = 1, asset_path = ''a.bgeo'',
        asset_thumb = None, asset_bytes_total = length ba\<rparr>,
      \<lparr>asset_id = ''b'', asset_type = ''vdb'', asset_version = 1, asset_path = ''b.vdb'',
        asset_thumb = None, asset_bytes_total = length bb\<rparr>#}
    \<and> length (scan fs proj_dir) = 2"
proof -
  have "set es = set_mset (mset es)" by simp
  then have flat: "\<forall>e\<in>set es. \<exists>b. snd e = File b" unfolding es by auto
  have m: "mset (scan fs proj_dir) =
    {#\<lparr>asset_id = ''a'', asset_type = ''bgeo'', asset_version = 1, asset_path = ''a.bgeo'',
        asset_thumb = None, asset_bytes_total = length ba\<rparr>,
      \<lparr>asset_id = ''b'', asset_type = ''vdb'', asset_version = 1, asset_path = ''b.vdb'',
        asset_thumb = None, asset_bytes_total = length bb\<rparr>#}"
    unfolding scan_flat [OF top flat] mset_concat_map es
    by (simp add: records_of_def asset_a asset_b asset_readme)
  from m have "size (mset (scan fs proj_dir)) = 2" by simp
  then have "length (scan fs proj_dir) = 2" by simp
  with m show ?thesis by simp
qed

theorem manifest_three_files_witness:
  "stat (Dir [(''p'', Dir [(''readme.txt'', File ''hello''), (''b.vdb'', File ''vv''),
                          (''a.bgeo'', File ''ggg'')])]) [''p'']
     = Some (Dir [(''readme.txt'', File ''hello''), (''b.vdb'', File ''vv''),
                  (''a.bgeo'', File ''ggg'')])
   \<and> mset (scan (Dir [(''p'', Dir [(''readme.txt'', File ''hello''), (''b.vdb'', File ''vv''),
                                (''a.bgeo'', File ''ggg'')])]) [''p'']) =
    {#\<lparr>asset_id = ''a'', asset_type = ''bgeo'', asset_version = 1, asset_path = ''a.bgeo'',
        asset_thumb = None, asset_bytes_total = length ''ggg''\<rparr>,
      \<lparr>asset_id = ''b'', asset_type = ''vdb'', asset_version = 1, asset_path = ''b.vdb'',
        asset_thumb = None, asset_bytes_total = length ''vv''\<rparr>#}"
proof -
  let ?es = "[(''readme.txt'', File ''hello''), (''b.vdb'', File ''vv''), (''a.bgeo'', File ''ggg'')]"
  have a: "stat (Dir [(''p'', Dir ?es)]) [''p''] = Some (Dir ?es)"
    by (simp add: stat_def)
  have b: "mset ?es = {#(''a.bgeo'', File ''ggg''), (''b.vdb'', File ''vv''),
      (''readme.txt'', File ''hello'')#}"
    by simp
  from manifest_three_files [OF a b] a show ?thesis by blast
qed

end
